theory Spec2Isabelle
  imports Main
begin

section \<open>Browser history manager: the navigation state machine of server-node.js\<close>

text \<open>
  The server keeps one module-level object \<open>browserHistory = { pages, currentIndex }\<close>
  and exposes it through HTTP handlers. Each handler is modelled as a function from the
  state before the request to the state after it and the JSON response.

  Strings are sequences of code units. The model covers the code units below 256, one
  \<^typ>\<open>char\<close> each; every literal of the source is ASCII.

  \<open>saveHistory\<close> only reads \<open>browserHistory\<close> and catches its own errors, so it has no
  effect on the state modelled here and is left out. A handler is taken to run to its end
  before the next request is handled.
\<close>

subsection \<open>JavaScript primitives used by the handlers\<close>

text \<open>
  \<open>String.prototype.trim\<close> strips white space and line terminators from both ends.
  Below 256 these are TAB, LF, VT, FF, CR, SP and NBSP.
\<close>

definition isWhiteSpace :: "char \<Rightarrow> bool" where
  "isWhiteSpace c = (of_char c \<in> {9, 10, 11, 12, 13, 32, 160 :: nat})"

definition trim :: "string \<Rightarrow> string" where
  "trim s = rev (dropWhile isWhiteSpace (rev (dropWhile isWhiteSpace s)))"

definition startsWith :: "string \<Rightarrow> string \<Rightarrow> bool" where
  "startsWith s p = (take (length p) s = p)"

text \<open>\<open>xs.slice(0, e)\<close>: a negative end counts from the end of the array.\<close>

definition slice0 :: "'a list \<Rightarrow> int \<Rightarrow> 'a list" where
  "slice0 xs e =
     (let len = int (length xs);
          final = (if e < 0 then max (len + e) 0 else min e len)
      in take (nat final) xs)"

text \<open>\<open>xs[i]\<close>: reading outside the array gives \<open>undefined\<close>, here \<open>None\<close>.\<close>

definition index :: "'a list \<Rightarrow> int \<Rightarrow> 'a option" where
  "index xs i = (if 0 \<le> i \<and> i < int (length xs) then Some (xs ! nat i) else None)"

text \<open>
  The value found under the key \<open>url\<close> of the parsed JSON body, \<open>JUndefined\<close> when the
  key is absent, \<open>JObject\<close> for objects and arrays. Only its truthiness and its
  \<open>typeof\<close> are inspected before it is known to be a string; of a number only whether it
  is zero matters.
\<close>

datatype jsvalue =
    JUndefined
  | JNull
  | JBoolean bool
  | JNumber int
  | JString string
  | JObject

fun falsy :: "jsvalue \<Rightarrow> bool" where
  "falsy JUndefined = True"
| "falsy JNull = True"
| "falsy (JBoolean b) = (\<not> b)"
| "falsy (JNumber n) = (n = 0)"
| "falsy (JString s) = (s = [])"
| "falsy JObject = False"

fun isString :: "jsvalue \<Rightarrow> bool" where
  "isString (JString s) = True"
| "isString _ = False"

fun stringOf :: "jsvalue \<Rightarrow> string" where
  "stringOf (JString s) = s"
| "stringOf _ = []"

subsection \<open>Data model\<close>

record page =
  url :: string
  timestamp :: string
  title :: string

record browserHistory =
  pages :: "page list"
  currentIndex :: int

text \<open>The \<open>data\<close> object of a successful response.\<close>

record navigation =
  page :: string
  canGoBack :: bool
  canGoForward :: bool
  currentIndex_out :: int
  totalPages :: nat

datatype response =
    Success navigation string
  | Failure nat string

definition initial :: browserHistory where
  "initial = \<lparr>pages = [], currentIndex = -1\<rparr>"

subsection \<open>URL helpers\<close>

text \<open>
  Node's \<open>URL\<close> class is not part of the repository. It enters as a parameter \<open>URL\<close>:
  \<open>URL s\<close> is \<open>None\<close> where \<open>new URL(s)\<close> throws, and \<open>Some h\<close> where it returns an
  object whose \<open>hostname\<close> is \<open>h\<close>.
\<close>

type_synonym url_class = "string \<Rightarrow> string option"

definition isValidUrl :: "url_class \<Rightarrow> string \<Rightarrow> bool" where
  "isValidUrl URL s =
     (case URL (if startsWith s ''http'' then s else ''https://'' @ s) of
        Some h \<Rightarrow> True
      | None \<Rightarrow> False)"

definition getDomainFromUrl :: "url_class \<Rightarrow> string \<Rightarrow> string" where
  "getDomainFromUrl URL u =
     (case URL (if startsWith u ''http'' then u else ''https://'' @ u) of
        Some h \<Rightarrow> h
      | None \<Rightarrow> takeWhile (\<lambda>c. c \<noteq> CHR ''/'') u)"

subsection \<open>Handlers\<close>

text \<open>
  GET /api/current. The handler cannot fail and its response carries no message, so the
  model returns the \<open>data\<close> object.
\<close>

definition api_current :: "browserHistory \<Rightarrow> navigation" where
  "api_current h =
     (let currentPage =
            (if currentIndex h \<ge> 0 \<and> currentIndex h < int (length (pages h))
             then index (pages h) (currentIndex h) else None)
      in \<lparr>page = (case currentPage of Some p \<Rightarrow> url p | None \<Rightarrow> []),
          canGoBack = (currentIndex h > 0),
          canGoForward = (currentIndex h < int (length (pages h)) - 1),
          currentIndex_out = currentIndex h,
          totalPages = length (pages h)\<rparr>)"

text \<open>
  POST /api/visit. \<open>now\<close> is what \<open>new Date().toISOString()\<close> returns while the request
  is handled, \<open>body_url\<close> is \<open>req.body.url\<close>.
\<close>

definition normalizedUrl :: "string \<Rightarrow> string" where
  "normalizedUrl trimmedUrl =
     (if \<not> startsWith trimmedUrl ''http://'' \<and> \<not> startsWith trimmedUrl ''https://''
      then ''https://'' @ trimmedUrl else trimmedUrl)"

definition newPage :: "url_class \<Rightarrow> string \<Rightarrow> string \<Rightarrow> page" where
  "newPage URL now trimmedUrl =
     \<lparr>url = normalizedUrl trimmedUrl,
      timestamp = now,
      title = getDomainFromUrl URL (normalizedUrl trimmedUrl)\<rparr>"

definition api_visit :: "url_class \<Rightarrow> string \<Rightarrow> browserHistory \<Rightarrow> jsvalue \<Rightarrow> browserHistory \<times> response" where
  "api_visit URL now h body_url =
     (if falsy body_url \<or> \<not> isString body_url
      then (h, Failure 400 ''URL is required and must be a string'')
      else
        let trimmedUrl = trim (stringOf body_url) in
        if \<not> isValidUrl URL trimmedUrl
        then (h, Failure 400 ''Invalid URL format'')
        else
          let h1 = (if currentIndex h < int (length (pages h)) - 1
                    then h\<lparr>pages := slice0 (pages h) (currentIndex h + 1)\<rparr>
                    else h);
              h2 = h1\<lparr>pages := pages h1 @ [newPage URL now trimmedUrl]\<rparr>;
              h3 = h2\<lparr>currentIndex := int (length (pages h2)) - 1\<rparr>
          in (h3,
              Success
                \<lparr>page = normalizedUrl trimmedUrl,
                 canGoBack = (currentIndex h3 > 0),
                 canGoForward = False,
                 currentIndex_out = currentIndex h3,
                 totalPages = length (pages h3)\<rparr>
                (''Successfully visited: '' @ normalizedUrl trimmedUrl)))"

text \<open>
  POST /api/back. Reading \<open>currentPage.url\<close> when \<open>pages[currentIndex]\<close> is \<open>undefined\<close>
  throws a TypeError; the handler's \<open>catch\<close> answers 500, after the index was moved.
\<close>

definition api_back :: "browserHistory \<Rightarrow> browserHistory \<times> response" where
  "api_back h =
     (if currentIndex h \<le> 0
      then (h, Failure 400 ''Cannot go back - already at the beginning of history'')
      else
        let h1 = h\<lparr>currentIndex := currentIndex h - 1\<rparr> in
        case index (pages h1) (currentIndex h1) of
          None \<Rightarrow> (h1, Failure 500 ''Internal server error while going back'')
        | Some currentPage \<Rightarrow>
            (h1,
             Success
               \<lparr>page = url currentPage,
                canGoBack = (currentIndex h1 > 0),
                canGoForward = (currentIndex h1 < int (length (pages h1)) - 1),
                currentIndex_out = currentIndex h1,
                totalPages = length (pages h1)\<rparr>
               (''Went back to: '' @ url currentPage)))"

text \<open>POST /api/forward, the mirror image of \<open>api_back\<close>.\<close>

definition api_forward :: "browserHistory \<Rightarrow> browserHistory \<times> response" where
  "api_forward h =
     (if currentIndex h \<ge> int (length (pages h)) - 1
      then (h, Failure 400 ''Cannot go forward - already at the end of history'')
      else
        let h1 = h\<lparr>currentIndex := currentIndex h + 1\<rparr> in
        case index (pages h1) (currentIndex h1) of
          None \<Rightarrow> (h1, Failure 500 ''Internal server error while going forward'')
        | Some currentPage \<Rightarrow>
            (h1,
             Success
               \<lparr>page = url currentPage,
                canGoBack = (currentIndex h1 > 0),
                canGoForward = (currentIndex h1 < int (length (pages h1)) - 1),
                currentIndex_out = currentIndex h1,
                totalPages = length (pages h1)\<rparr>
               (''Went forward to: '' @ url currentPage)))"

text \<open>DELETE /api/clear.\<close>

definition api_clear :: "browserHistory \<Rightarrow> browserHistory \<times> response" where
  "api_clear h =
     (\<lparr>pages = [], currentIndex = -1\<rparr>,
      Success
        \<lparr>page = [], canGoBack = False, canGoForward = False,
         currentIndex_out = -1, totalPages = 0\<rparr>
        ''History cleared successfully'')"

subsection \<open>Sequences of requests\<close>

text \<open>
  A mutating request, with what the handler reads from outside the state: the body's
  \<open>url\<close> and the clock for a visit.
\<close>

datatype request =
    Visit jsvalue string
  | Back
  | Forward
  | Clear

fun handle :: "url_class \<Rightarrow> browserHistory \<Rightarrow> request \<Rightarrow> browserHistory \<times> response" where
  "handle URL h (Visit body_url now) = api_visit URL now h body_url"
| "handle URL h Back = api_back h"
| "handle URL h Forward = api_forward h"
| "handle URL h Clear = api_clear h"

fun run :: "url_class \<Rightarrow> browserHistory \<Rightarrow> request list \<Rightarrow> browserHistory" where
  "run URL h [] = h"
| "run URL h (r # rs) = run URL (fst (handle URL h r)) rs"

text \<open>\<open>k\<close> calls of POST /api/back in a row, all answered with success.\<close>

fun back_times :: "nat \<Rightarrow> browserHistory \<Rightarrow> browserHistory option" where
  "back_times 0 h = Some h"
| "back_times (Suc k) h =
     (case api_back h of
        (h1, Success d m) \<Rightarrow> back_times k h1
      | (h1, Failure c e) \<Rightarrow> None)"

text \<open>The invariant of the data model: \<open>-1 \<le> currentIndex < pages.length\<close>.\<close>

definition invariant :: "browserHistory \<Rightarrow> bool" where
  "invariant h = (-1 \<le> currentIndex h \<and> currentIndex h < int (length (pages h)))"

text \<open>The two boundary rejections, and the rejection of an address that does not parse.\<close>

definition AtBeginning :: response where
  "AtBeginning = Failure 400 ''Cannot go back - already at the beginning of history''"

definition AtEnd :: response where
  "AtEnd = Failure 400 ''Cannot go forward - already at the end of history''"

definition InvalidUrl :: response where
  "InvalidUrl = Failure 400 ''Invalid URL format''"

definition succeeded :: "response \<Rightarrow> bool" where
  "succeeded r = (case r of Success d m \<Rightarrow> True | Failure c e \<Rightarrow> False)"

subsection \<open>Concrete inputs\<close>

text \<open>
  A small stand-in for the \<open>URL\<close> class, used only to run the handlers on concrete
  requests: it accepts \<open>http://\<close> or \<open>https://\<close> followed by a non-empty host and gives
  the host up to the first slash. On the lower-case addresses used below that is what
  Node answers too. The general theorems hold for every \<open>URL\<close>.
\<close>

definition hostOnly :: url_class where
  "hostOnly s =
     (let rest = (if startsWith s ''https://'' then drop 8 s
                  else if startsWith s ''http://'' then drop 7 s else [])
      in if takeWhile (\<lambda>c. c \<noteq> CHR ''/'') rest = [] then None
         else Some (takeWhile (\<lambda>c. c \<noteq> CHR ''/'') rest))"

text \<open>The entry that a visit of the bare host name \<open>host\<close> at time \<open>t\<close> creates.\<close>

definition entry :: "string \<Rightarrow> string \<Rightarrow> page" where
  "entry host t = \<lparr>url = ''https://'' @ host, timestamp = t, title = host\<rparr>"

definition two_pages_at_first :: browserHistory where
  "two_pages_at_first =
     \<lparr>pages = [entry ''a.com'' ''t1'', entry ''b.com'' ''t2''], currentIndex = 0\<rparr>"

definition two_pages_at_last :: browserHistory where
  "two_pages_at_last =
     \<lparr>pages = [entry ''a.com'' ''t1'', entry ''b.com'' ''t2''], currentIndex = 1\<rparr>"


definition one_page_index_five :: browserHistory where
  "one_page_index_five = \<lparr>pages = [entry ''a.com'' ''t1''], currentIndex = 5\<rparr>"

lemmas eval_defs =
  api_visit_def api_back_def api_forward_def api_clear_def api_current_def
  isValidUrl_def getDomainFromUrl_def normalizedUrl_def newPage_def hostOnly_def
  startsWith_def trim_def isWhiteSpace_def slice0_def index_def Let_def
  entry_def initial_def invariant_def

section \<open>Properties\<close>

subsection \<open>Facts about the primitives and the single handlers\<close>

lemma slice0_inv: "-1 \<le> c \<Longrightarrow> slice0 xs (c + 1) = take (nat (c + 1)) xs"
  by (auto simp: slice0_def Let_def min_def)

lemma slice0_take: "\<exists>n\<le>length xs. slice0 xs e = take n xs"
proof -
  have "slice0 xs e =
          take (min (length xs)
                 (nat (if e < 0 then max (int (length xs) + e) 0 else min e (int (length xs))))) xs"
    by (simp add: slice0_def Let_def)
  then show ?thesis by (metis min.cobounded1)
qed

lemma visit_success_state:
  assumes "api_visit URL now h b = (h', Success d m)"
  shows "h' = \<lparr>pages = (if currentIndex h < int (length (pages h)) - 1
                         then slice0 (pages h) (currentIndex h + 1) else pages h)
                        @ [newPage URL now (trim (stringOf b))],
               currentIndex = int (length (if currentIndex h < int (length (pages h)) - 1
                         then slice0 (pages h) (currentIndex h + 1) else pages h))\<rparr>"
    and "d = \<lparr>page = normalizedUrl (trim (stringOf b)), canGoBack = (currentIndex h' > 0),
              canGoForward = False, currentIndex_out = currentIndex h',
              totalPages = length (pages h')\<rparr>"
    and "m = ''Successfully visited: '' @ normalizedUrl (trim (stringOf b))"
  using assms
  by (auto simp: api_visit_def Let_def split: if_splits)

lemma visit_failure_state:
  "api_visit URL now h b = (h', Failure c e) \<Longrightarrow> h' = h"
  by (auto simp: api_visit_def Let_def split: if_splits)

lemma visit_failure_cases:
  "api_visit URL now h b = (h', Failure c e) \<Longrightarrow>
     c = 400 \<and> (e = ''URL is required and must be a string'' \<or> Failure c e = InvalidUrl)"
  by (auto simp: api_visit_def InvalidUrl_def Let_def split: if_splits)

lemma visit_pages_invariant:
  assumes "invariant h" "api_visit URL now h b = (h', Success d m)"
  shows "pages h' = take (nat (currentIndex h + 1)) (pages h)
                      @ [newPage URL now (trim (stringOf b))]"
proof -
  from assms(1) have c: "-1 \<le> currentIndex h" "currentIndex h < int (length (pages h))"
    by (simp_all add: invariant_def)
  show ?thesis
  proof (cases "currentIndex h < int (length (pages h)) - 1")
    case True
    then show ?thesis
      using visit_success_state(1) [OF assms(2)] c by (simp add: slice0_inv)
  next
    case False
    with c have "nat (currentIndex h + 1) = length (pages h)" by linarith
    then show ?thesis
      using visit_success_state(1) [OF assms(2)] False by simp
  qed
qed

lemma back_success:
  assumes "invariant h" "0 < currentIndex h"
  shows "api_back h =
     (h\<lparr>currentIndex := currentIndex h - 1\<rparr>,
      Success (api_current (h\<lparr>currentIndex := currentIndex h - 1\<rparr>))
        (''Went back to: '' @ url (pages h ! nat (currentIndex h - 1))))"
  using assms
  by (simp add: api_back_def api_current_def index_def invariant_def Let_def)

lemma forward_success:
  assumes "-1 \<le> currentIndex h" "currentIndex h < int (length (pages h)) - 1"
  shows "api_forward h =
     (h\<lparr>currentIndex := currentIndex h + 1\<rparr>,
      Success (api_current (h\<lparr>currentIndex := currentIndex h + 1\<rparr>))
        (''Went forward to: '' @ url (pages h ! nat (currentIndex h + 1))))"
  using assms
  by (simp add: api_forward_def api_current_def index_def Let_def)

subsection \<open>The invariant\<close>

lemma initial_invariant: "invariant initial"
  by (simp add: invariant_def initial_def)

lemma visit_invariant: "invariant h \<Longrightarrow> invariant (fst (api_visit URL now h b))"
  by (auto simp: api_visit_def invariant_def Let_def slice0_def)

lemma back_invariant: "invariant h \<Longrightarrow> invariant (fst (api_back h))"
  by (auto simp: api_back_def invariant_def Let_def split: option.splits)

lemma forward_invariant: "invariant h \<Longrightarrow> invariant (fst (api_forward h))"
  by (auto simp: api_forward_def invariant_def Let_def split: option.splits)

lemma clear_invariant: "invariant (fst (api_clear h))"
  by (simp add: api_clear_def invariant_def)

lemma handle_invariant: "invariant h \<Longrightarrow> invariant (fst (handle URL h r))"
  by (cases r) (simp_all add: visit_invariant back_invariant forward_invariant clear_invariant)

lemma run_invariant: "invariant h \<Longrightarrow> invariant (run URL h rs)"
  by (induction rs arbitrary: h) (simp_all add: handle_invariant)

text \<open>
  C1. Starting from the empty state, after each request of any sequence of visit, back,
  forward and clear requests (the first \<open>n\<close> of them, for every \<open>n\<close>)
  \<open>-1 \<le> currentIndex < pages.length\<close>, and \<open>currentIndex = -1\<close> when \<open>pages\<close> is empty.
\<close>

theorem invariant_always:
  "- 1 \<le> currentIndex (run URL initial (take n rs))
   \<and> currentIndex (run URL initial (take n rs))
         < int (length (pages (run URL initial (take n rs))))
   \<and> (pages (run URL initial (take n rs)) = [] \<longrightarrow>
         currentIndex (run URL initial (take n rs)) = - 1)"
  using run_invariant [OF initial_invariant, of URL "take n rs"]
  by (auto simp: invariant_def)

theorem invariant_always_witness:
  "pages (run hostOnly initial
            (take 5 [Visit (JString ''a.com'') ''t1'', Visit (JString ''b.com'') ''t2'',
                     Back, Forward, Clear])) = []
   \<and> currentIndex (run hostOnly initial
            (take 5 [Visit (JString ''a.com'') ''t1'', Visit (JString ''b.com'') ''t2'',
                     Back, Forward, Clear])) = - 1
   \<and> currentIndex (run hostOnly initial
            (take 3 [Visit (JString ''a.com'') ''t1'', Visit (JString ''b.com'') ''t2'',
                     Back, Forward, Clear])) < 2"
proof -
  have e: "pages (run hostOnly initial
            (take 5 [Visit (JString ''a.com'') ''t1'', Visit (JString ''b.com'') ''t2'',
                     Back, Forward, Clear])) = []"
    by (simp add: eval_defs)
  have l: "length (pages (run hostOnly initial
            (take 3 [Visit (JString ''a.com'') ''t1'', Visit (JString ''b.com'') ''t2'',
                     Back, Forward, Clear]))) = 2"
    by (simp add: eval_defs)
  note t5 = invariant_always [of hostOnly 5 "[Visit (JString ''a.com'') ''t1'',
             Visit (JString ''b.com'') ''t2'', Back, Forward, Clear]"]
  note t3 = invariant_always [of hostOnly 3 "[Visit (JString ''a.com'') ''t1'',
             Visit (JString ''b.com'') ''t2'', Back, Forward, Clear]"]
  have c5: "currentIndex (run hostOnly initial
            (take 5 [Visit (JString ''a.com'') ''t1'', Visit (JString ''b.com'') ''t2'',
                     Back, Forward, Clear])) = - 1"
    using t5 [THEN conjunct2, THEN conjunct2, THEN mp, OF e] .
  have c3: "currentIndex (run hostOnly initial
            (take 3 [Visit (JString ''a.com'') ''t1'', Visit (JString ''b.com'') ''t2'',
                     Back, Forward, Clear])) < 2"
    using t3 [THEN conjunct2, THEN conjunct1] l by simp
  show ?thesis
    by (intro conjI) (rule e c5 c3)+
qed

subsection \<open>Visiting\<close>

text \<open>
  C2. In a state satisfying the invariant, for every body value that is a non-empty
  string whose trimmed form passes the validity check, the visit succeeds: it keeps
  exactly the entries up to the index (all of them when the index is at the last entry),
  appends the one new entry for the normalized address, points the index at it, and
  answers with \<open>canGoForward = false\<close>; the answer is the projection of the new state.
\<close>

theorem visit_truncates_then_appends:
  assumes "invariant h" and "isString b" and "\<not> falsy b"
    and "isValidUrl URL (trim (stringOf b))"
  shows "\<exists>h' d m.
         api_visit URL now h b = (h', Success d m)
       \<and> pages h' = take (nat (currentIndex h + 1)) (pages h)
                      @ [newPage URL now (trim (stringOf b))]
       \<and> (currentIndex h = int (length (pages h)) - 1 \<longrightarrow>
            pages h' = pages h @ [newPage URL now (trim (stringOf b))])
       \<and> url (newPage URL now (trim (stringOf b))) = normalizedUrl (trim (stringOf b))
       \<and> page d = normalizedUrl (trim (stringOf b))
       \<and> length (pages h') = nat (currentIndex h + 1) + 1
       \<and> currentIndex h' = int (length (pages h')) - 1
       \<and> canGoForward d = False
       \<and> d = api_current h'"
proof -
  obtain h' d m where v: "api_visit URL now h b = (h', Success d m)"
    using assms(2,3,4) by (simp add: api_visit_def Let_def)
  from assms(1) have c: "-1 \<le> currentIndex h" "currentIndex h < int (length (pages h))"
    by (simp_all add: invariant_def)
  note p = visit_pages_invariant [OF assms(1) v]
  have len: "length (pages h') = nat (currentIndex h + 1) + 1"
    using p c by simp
  have ci: "currentIndex h' = int (length (pages h')) - 1"
    using visit_success_state(1) [OF v] by simp
  have d: "d = \<lparr>page = normalizedUrl (trim (stringOf b)), canGoBack = (currentIndex h' > 0),
              canGoForward = False, currentIndex_out = currentIndex h',
              totalPages = length (pages h')\<rparr>"
    by (rule visit_success_state(2) [OF v])
  have last: "pages h' ! nat (currentIndex h') = newPage URL now (trim (stringOf b))"
    using p ci len c by (simp add: nth_append)
  have cur: "d = api_current h'"
    using d ci len last by (simp add: api_current_def index_def newPage_def)
  have full: "currentIndex h = int (length (pages h)) - 1 \<longrightarrow>
            pages h' = pages h @ [newPage URL now (trim (stringOf b))]"
    using p by auto
  have u: "url (newPage URL now (trim (stringOf b))) = normalizedUrl (trim (stringOf b))"
    by (simp add: newPage_def)
  have pd: "page d = normalizedUrl (trim (stringOf b))"
    and fw: "canGoForward d = False"
    using d by simp_all
  show ?thesis
    using v p full u pd len ci fw cur by blast
qed

text \<open>
  Two requests: a bare host name visited from the first of two entries, which drops the
  second, and an \<open>https://\<close> address visited from the last of two entries, which drops
  nothing. That either visit succeeds is taken from the theorem.
\<close>

theorem visit_truncates_then_appends_witness:
  "invariant two_pages_at_first
   \<and> isString (JString '' c.com '') \<and> \<not> falsy (JString '' c.com '')
   \<and> isValidUrl hostOnly (trim (stringOf (JString '' c.com '')))
   \<and> succeeded (snd (api_visit hostOnly ''t3'' two_pages_at_first (JString '' c.com '')))
   \<and> pages (fst (api_visit hostOnly ''t3'' two_pages_at_first (JString '' c.com ''))) =
       [entry ''a.com'' ''t1'', entry ''c.com'' ''t3'']
   \<and> currentIndex (fst (api_visit hostOnly ''t3'' two_pages_at_first (JString '' c.com ''))) = 1
   \<and> invariant two_pages_at_last
   \<and> isString (JString ''https://c.com'') \<and> \<not> falsy (JString ''https://c.com'')
   \<and> isValidUrl hostOnly (trim (stringOf (JString ''https://c.com'')))
   \<and> succeeded (snd (api_visit hostOnly ''t3'' two_pages_at_last (JString ''https://c.com'')))
   \<and> pages (fst (api_visit hostOnly ''t3'' two_pages_at_last (JString ''https://c.com''))) =
       [entry ''a.com'' ''t1'', entry ''b.com'' ''t2'', entry ''c.com'' ''t3'']
   \<and> currentIndex (fst (api_visit hostOnly ''t3'' two_pages_at_last (JString ''https://c.com''))) = 2"
proof -
  have i1: "invariant two_pages_at_first"
    by (simp add: invariant_def two_pages_at_first_def)
  have s1: "isString (JString '' c.com '')" and f1: "\<not> falsy (JString '' c.com '')"
    by simp_all
  have t1: "trim '' c.com '' = ''c.com''"
    by (simp add: trim_def isWhiteSpace_def)
  have v1: "isValidUrl hostOnly (trim (stringOf (JString '' c.com '')))"
    by (simp add: t1 isValidUrl_def hostOnly_def startsWith_def)
  have n1: "newPage hostOnly ''t3'' ''c.com'' = entry ''c.com'' ''t3''"
    by (simp add: newPage_def normalizedUrl_def getDomainFromUrl_def hostOnly_def
        startsWith_def entry_def)
  from visit_truncates_then_appends [OF i1 s1 f1 v1, of "''t3''"]
  obtain h' d m where r1:
    "api_visit hostOnly ''t3'' two_pages_at_first (JString '' c.com '') = (h', Success d m)"
    "pages h' = take (nat (currentIndex two_pages_at_first + 1)) (pages two_pages_at_first)
                  @ [newPage hostOnly ''t3'' (trim (stringOf (JString '' c.com '')))]"
    "currentIndex h' = int (length (pages h')) - 1"
    by blast
  have a1: "succeeded (snd (api_visit hostOnly ''t3'' two_pages_at_first (JString '' c.com '')))"
    using r1(1) by (simp add: succeeded_def)
  have p1: "pages (fst (api_visit hostOnly ''t3'' two_pages_at_first (JString '' c.com ''))) =
       [entry ''a.com'' ''t1'', entry ''c.com'' ''t3'']"
    using r1(1,2) by (simp add: t1 n1 two_pages_at_first_def)
  have c1: "currentIndex (fst (api_visit hostOnly ''t3'' two_pages_at_first (JString '' c.com ''))) = 1"
    using r1 by (simp add: t1 n1 two_pages_at_first_def)
  have i2: "invariant two_pages_at_last"
    by (simp add: invariant_def two_pages_at_last_def)
  have s2: "isString (JString ''https://c.com'')" and f2: "\<not> falsy (JString ''https://c.com'')"
    by simp_all
  have t2: "trim ''https://c.com'' = ''https://c.com''"
    by (simp add: trim_def isWhiteSpace_def)
  have v2: "isValidUrl hostOnly (trim (stringOf (JString ''https://c.com'')))"
    by (simp add: t2 isValidUrl_def hostOnly_def startsWith_def)
  have n2: "newPage hostOnly ''t3'' ''https://c.com'' = entry ''c.com'' ''t3''"
    by (simp add: newPage_def normalizedUrl_def getDomainFromUrl_def hostOnly_def
        startsWith_def entry_def)
  from visit_truncates_then_appends [OF i2 s2 f2 v2, of "''t3''"]
  obtain k' e n where r2:
    "api_visit hostOnly ''t3'' two_pages_at_last (JString ''https://c.com'') = (k', Success e n)"
    "pages k' = take (nat (currentIndex two_pages_at_last + 1)) (pages two_pages_at_last)
                  @ [newPage hostOnly ''t3'' (trim (stringOf (JString ''https://c.com'')))]"
    "currentIndex k' = int (length (pages k')) - 1"
    by blast
  have a2: "succeeded (snd (api_visit hostOnly ''t3'' two_pages_at_last (JString ''https://c.com'')))"
    using r2(1) by (simp add: succeeded_def)
  have p2: "pages (fst (api_visit hostOnly ''t3'' two_pages_at_last (JString ''https://c.com''))) =
       [entry ''a.com'' ''t1'', entry ''b.com'' ''t2'', entry ''c.com'' ''t3'']"
    using r2(1,2) by (simp add: t2 n2 two_pages_at_last_def)
  have c2: "currentIndex (fst (api_visit hostOnly ''t3'' two_pages_at_last (JString ''https://c.com''))) = 2"
    using r2 by (simp add: t2 n2 two_pages_at_last_def)
  show ?thesis
    by (intro conjI) (rule i1 s1 f1 v1 a1 p1 c1 i2 s2 f2 v2 a2 p2 c2)+
qed


lemma back_times_possible:
  "invariant h \<Longrightarrow> int k \<le> currentIndex h \<Longrightarrow>
     back_times k h = Some (h\<lparr>currentIndex := currentIndex h - int k\<rparr>)"
proof (induction k arbitrary: h)
  case 0
  then show ?case by simp
next
  case (Suc k)
  let ?h = "h\<lparr>currentIndex := currentIndex h - 1\<rparr>"
  have pos: "0 < currentIndex h" using Suc.prems(2) by simp
  have i: "invariant ?h"
    using Suc.prems(1) pos by (simp add: invariant_def)
  have "back_times k ?h = Some (?h\<lparr>currentIndex := currentIndex ?h - int k\<rparr>)"
    using Suc.IH [OF i] Suc.prems(2) by simp
  then show ?case
    using back_success [OF Suc.prems(1) pos] by (simp add: algebra_simps)
qed




subsection \<open>Going back and forward\<close>

text \<open>
  C4. Back answers \<open>AtBeginning\<close> exactly when \<open>currentIndex \<le> 0\<close>, forward answers
  \<open>AtEnd\<close> exactly when \<open>currentIndex \<ge> pages.length - 1\<close>; then the state is unchanged,
  otherwise the index is moved by exactly one and nothing else changes. In a state
  satisfying the invariant every call that is not rejected in this way succeeds.
\<close>

theorem back_forward_boundaries:
  "(snd (api_back h) = AtBeginning) = (currentIndex h \<le> 0)
   \<and> fst (api_back h) =
       (if currentIndex h \<le> 0 then h else h\<lparr>currentIndex := currentIndex h - 1\<rparr>)
   \<and> (snd (api_forward h) = AtEnd) = (currentIndex h \<ge> int (length (pages h)) - 1)
   \<and> fst (api_forward h) =
       (if currentIndex h \<ge> int (length (pages h)) - 1 then h
        else h\<lparr>currentIndex := currentIndex h + 1\<rparr>)
   \<and> (invariant h \<longrightarrow>
        succeeded (snd (api_back h)) = (currentIndex h > 0)
        \<and> succeeded (snd (api_forward h)) = (currentIndex h < int (length (pages h)) - 1))"
proof -
  have b1: "(snd (api_back h) = AtBeginning) = (currentIndex h \<le> 0)"
    by (simp add: api_back_def AtBeginning_def Let_def split: option.splits)
  have b2: "fst (api_back h) =
      (if currentIndex h \<le> 0 then h else h\<lparr>currentIndex := currentIndex h - 1\<rparr>)"
    by (simp add: api_back_def Let_def split: option.splits)
  have f1: "(snd (api_forward h) = AtEnd) = (currentIndex h \<ge> int (length (pages h)) - 1)"
    by (simp add: api_forward_def AtEnd_def Let_def split: option.splits)
  have f2: "fst (api_forward h) =
      (if currentIndex h \<ge> int (length (pages h)) - 1 then h
       else h\<lparr>currentIndex := currentIndex h + 1\<rparr>)"
    by (simp add: api_forward_def Let_def split: option.splits)
  have s1: "succeeded (snd (api_back h)) = (currentIndex h > 0)" if "invariant h"
  proof (cases "currentIndex h > 0")
    case True
    then show ?thesis using back_success [OF that True] by (simp add: succeeded_def)
  next
    case False
    then show ?thesis by (simp add: api_back_def succeeded_def)
  qed
  have s2: "succeeded (snd (api_forward h)) = (currentIndex h < int (length (pages h)) - 1)"
    if "invariant h"
  proof (cases "currentIndex h < int (length (pages h)) - 1")
    case True
    from that have "-1 \<le> currentIndex h" by (simp add: invariant_def)
    then show ?thesis using forward_success [OF _ True] True by (simp add: succeeded_def)
  next
    case False
    then show ?thesis by (simp add: api_forward_def succeeded_def)
  qed
  show ?thesis using b1 b2 f1 f2 s1 s2 by simp
qed

theorem back_forward_boundaries_witness:
  "invariant two_pages_at_first
   \<and> snd (api_back two_pages_at_first) = AtBeginning
   \<and> fst (api_back two_pages_at_first) = two_pages_at_first
   \<and> \<not> succeeded (snd (api_back two_pages_at_first))
   \<and> succeeded (snd (api_forward two_pages_at_first))
   \<and> fst (api_forward two_pages_at_first) = two_pages_at_last"
proof -
  have i: "invariant two_pages_at_first"
    by (simp add: invariant_def two_pages_at_first_def)
  have c: "currentIndex two_pages_at_first = 0" "length (pages two_pages_at_first) = 2"
    by (simp_all add: two_pages_at_first_def)
  have l: "two_pages_at_first\<lparr>currentIndex := 1\<rparr> = two_pages_at_last"
    by (simp add: two_pages_at_first_def two_pages_at_last_def)
  show ?thesis
    using i c l back_forward_boundaries [of two_pages_at_first]
    by (simp add: succeeded_def AtBeginning_def)
qed

text \<open>
  C5. In a state satisfying the invariant with \<open>currentIndex > 0\<close>, back followed by
  forward both succeed and give back the state they started from: the same index, the
  same current address, and the entries untouched in between.
\<close>

theorem back_forward_round_trip:
  assumes "invariant h" and "0 < currentIndex h"
  shows "\<exists>h1 d1 m1 d2 m2.
           api_back h = (h1, Success d1 m1)
         \<and> api_forward h1 = (h, Success d2 m2)
         \<and> pages h1 = pages h
         \<and> currentIndex h1 = currentIndex h - 1
         \<and> currentIndex_out d2 = currentIndex h
         \<and> page d2 = url (pages h ! nat (currentIndex h))
         \<and> d2 = api_current h"
proof -
  let ?h1 = "h\<lparr>currentIndex := currentIndex h - 1\<rparr>"
  have c: "currentIndex h < int (length (pages h))"
    using assms(1) by (simp add: invariant_def)
  have f: "api_forward ?h1 =
     (h, Success (api_current h) (''Went forward to: '' @ url (pages h ! nat (currentIndex h))))"
    using forward_success [of ?h1] assms(2) c by simp
  have cur: "page (api_current h) = url (pages h ! nat (currentIndex h))"
    "currentIndex_out (api_current h) = currentIndex h"
    using assms(2) c by (simp_all add: api_current_def index_def)
  show ?thesis
    using back_success [OF assms] f cur by simp
qed

theorem back_forward_round_trip_witness:
  "invariant two_pages_at_last
   \<and> 0 < currentIndex two_pages_at_last
   \<and> fst (api_back two_pages_at_last) = two_pages_at_first
   \<and> fst (api_forward (fst (api_back two_pages_at_last))) = two_pages_at_last
   \<and> page (api_current two_pages_at_last) = ''https://b.com''"
proof -
  have i: "invariant two_pages_at_last"
    by (simp add: invariant_def two_pages_at_last_def)
  have p: "0 < currentIndex two_pages_at_last"
    by (simp add: two_pages_at_last_def)
  have b: "fst (api_back two_pages_at_last) = two_pages_at_first"
    by (simp add: eval_defs two_pages_at_last_def two_pages_at_first_def)
  have a: "page (api_current two_pages_at_last) = ''https://b.com''"
    by (simp add: eval_defs two_pages_at_last_def)
  show ?thesis
    using i p b a back_forward_round_trip [OF i p] by auto
qed

subsection \<open>Clearing\<close>

text \<open>
  C6. From every state, DELETE /api/clear succeeds, leaves \<open>pages = []\<close> and
  \<open>currentIndex = -1\<close>, and answers with the empty projection: empty address, both flags
  false, index \<open>-1\<close>, zero pages. That literal answer is also what GET /api/current
  computes from the cleared state.
\<close>

theorem clear_resets:
  "fst (api_clear h) = initial
   \<and> pages (fst (api_clear h)) = []
   \<and> currentIndex (fst (api_clear h)) = -1
   \<and> snd (api_clear h) =
       Success \<lparr>page = [], canGoBack = False, canGoForward = False,
                currentIndex_out = -1, totalPages = 0\<rparr>
               ''History cleared successfully''
   \<and> (\<exists>d m. snd (api_clear h) = Success d m \<and> api_current (fst (api_clear h)) = d)"
  by (simp add: api_clear_def initial_def api_current_def)


subsection \<open>Validation and normalization of the address\<close>

text \<open>What the handler accepts: a non-empty string whose trimmed form passes \<open>isValidUrl\<close>.\<close>

lemma visit_accepts_iff:
  "succeeded (snd (api_visit URL now h b)) =
     (isString b \<and> \<not> falsy b \<and>
      URL (if startsWith (trim (stringOf b)) ''http'' then trim (stringOf b)
           else ''https://'' @ trim (stringOf b)) \<noteq> None)"
  by (auto simp: api_visit_def isValidUrl_def succeeded_def Let_def split: option.splits)

lemma visit_rejected_unchanged:
  "\<not> succeeded (snd (api_visit URL now h b)) \<Longrightarrow> fst (api_visit URL now h b) = h"
  by (auto simp: api_visit_def succeeded_def Let_def split: if_splits)

text \<open>
  C7. The address to parse is the trimmed string itself when it has a scheme and the
  trimmed string behind \<open>https://\<close> when it has none. \<open>isValidUrl\<close> looks for the four
  characters \<open>http\<close> instead of a scheme: the host name \<open>httpbin.org\<close> is handed to the
  \<open>URL\<close> class as it is, and the visit is answered with \<open>InvalidUrl\<close> exactly when that
  bare string does not parse, whatever \<open>https://httpbin.org\<close> would give.
\<close>

theorem visit_bare_host_starting_with_http:
  "(snd (api_visit URL now h (JString ''httpbin.org'')) = InvalidUrl)
     = (URL ''httpbin.org'' = None)
   \<and> normalizedUrl (trim ''httpbin.org'') = ''https://httpbin.org''"
proof -
  have t: "trim ''httpbin.org'' = ''httpbin.org''"
    by (simp add: trim_def isWhiteSpace_def)
  have p: "startsWith ''httpbin.org'' ''http''"
    by (simp add: startsWith_def)
  have r: "(snd (api_visit URL now h (JString ''httpbin.org'')) = InvalidUrl)
             = (URL ''httpbin.org'' = None)"
    by (simp add: api_visit_def InvalidUrl_def Let_def isValidUrl_def t p split: option.splits)
  have n: "normalizedUrl (trim ''httpbin.org'') = ''https://httpbin.org''"
    by (simp add: t normalizedUrl_def startsWith_def)
  show ?thesis using r n by simp
qed

text \<open>
  What normalization does with an input that passes the validity check, in any state:
  the visit succeeds, and the stored and reported address is the trimmed input behind
  \<open>https://\<close> if the trimmed input does not start with \<open>http://\<close> or \<open>https://\<close>, and
  the trimmed input otherwise.
\<close>

lemma validated_visit_address:
  assumes "isString b" and "\<not> falsy b" and "isValidUrl URL (trim (stringOf b))"
  shows "\<exists>h' d m.
         api_visit URL now h b = (h', Success d m)
       \<and> page d = (if startsWith (trim (stringOf b)) ''http://''
                      \<or> startsWith (trim (stringOf b)) ''https://''
                   then trim (stringOf b) else ''https://'' @ trim (stringOf b))
       \<and> url (last (pages h')) = page d
       \<and> (\<not> startsWith (trim (stringOf b)) ''http://'' \<and>
           \<not> startsWith (trim (stringOf b)) ''https://'' \<longrightarrow> startsWith (page d) ''https://'')"
proof -
  obtain h' d m where v: "api_visit URL now h b = (h', Success d m)"
    using assms by (simp add: api_visit_def Let_def)
  have "page d = (if startsWith (trim (stringOf b)) ''http://''
                      \<or> startsWith (trim (stringOf b)) ''https://''
                   then trim (stringOf b) else ''https://'' @ trim (stringOf b))
       \<and> url (last (pages h')) = page d
       \<and> (\<not> startsWith (trim (stringOf b)) ''http://'' \<and>
           \<not> startsWith (trim (stringOf b)) ''https://'' \<longrightarrow> startsWith (page d) ''https://'')"
    using visit_success_state [OF v]
    by (auto simp: normalizedUrl_def newPage_def startsWith_def)
  with v show ?thesis by blast
qed

lemma validated_visit_address_examples:
  "api_visit hostOnly ''t1'' initial (JString ''example.com'') =
     (\<lparr>pages = [entry ''example.com'' ''t1''], currentIndex = 0\<rparr>,
      Success \<lparr>page = ''https://example.com'', canGoBack = False, canGoForward = False,
               currentIndex_out = 0, totalPages = 1\<rparr>
              ''Successfully visited: https://example.com'')
   \<and> api_visit hostOnly ''t1'' initial (JString ''http://example.com'') =
     (\<lparr>pages = [\<lparr>url = ''http://example.com'', timestamp = ''t1'',
                 title = ''example.com''\<rparr>], currentIndex = 0\<rparr>,
      Success \<lparr>page = ''http://example.com'', canGoBack = False, canGoForward = False,
               currentIndex_out = 0, totalPages = 1\<rparr>
              ''Successfully visited: http://example.com'')"
  by (simp add: eval_defs)

text \<open>
  C8. Every valid input whose trimmed form does not start with \<open>http://\<close> or \<open>https://\<close>
  gets the address made of \<open>https://\<close> and the trimmed input. The host name
  \<open>httpbin.org\<close> is such an input, and the address would be \<open>https://httpbin.org\<close>. The
  handler produces an address for it exactly when the bare string \<open>httpbin.org\<close> parses,
  and answers \<open>InvalidUrl\<close> with the state unchanged when it does not, since the validity
  check looks for the four characters \<open>http\<close> where normalization looks for \<open>http://\<close>
  and \<open>https://\<close>.
\<close>

theorem bare_http_host_gets_no_address:
  "(\<exists>h' d m. api_visit URL now h (JString ''httpbin.org'') = (h', Success d m))
     = (URL ''httpbin.org'' \<noteq> None)
   \<and> (api_visit URL now h (JString ''httpbin.org'') = (h, InvalidUrl))
     = (URL ''httpbin.org'' = None)
   \<and> isString (JString ''httpbin.org'')
   \<and> \<not> falsy (JString ''httpbin.org'')
   \<and> \<not> startsWith (trim ''httpbin.org'') ''http://''
   \<and> \<not> startsWith (trim ''httpbin.org'') ''https://''
   \<and> ''https://'' @ trim ''httpbin.org'' = ''https://httpbin.org''"
proof -
  have t: "trim ''httpbin.org'' = ''httpbin.org''"
    by (simp add: trim_def isWhiteSpace_def)
  have p: "startsWith ''httpbin.org'' ''http''"
    by (simp add: startsWith_def)
  have a: "(\<exists>h' d m. api_visit URL now h (JString ''httpbin.org'') = (h', Success d m))
             = (URL ''httpbin.org'' \<noteq> None)"
    by (auto simp: api_visit_def Let_def isValidUrl_def t p split: option.splits)
  have r: "(api_visit URL now h (JString ''httpbin.org'') = (h, InvalidUrl))
             = (URL ''httpbin.org'' = None)"
    by (auto simp: api_visit_def InvalidUrl_def Let_def isValidUrl_def t p split: option.splits)
  have n: "\<not> startsWith (trim ''httpbin.org'') ''http://''"
    "\<not> startsWith (trim ''httpbin.org'') ''https://''"
    "''https://'' @ trim ''httpbin.org'' = ''https://httpbin.org''"
    by (simp_all add: t startsWith_def)
  show ?thesis using a r n by simp
qed

subsection \<open>Existing entries are never modified\<close>

text \<open>
  C9. Back and forward leave the sequence of entries as it was, whatever they answer. A
  rejected visit leaves the whole state as it was. An accepted visit keeps a prefix of
  the old sequence, every kept entry unchanged at its position, and appends exactly one
  new entry.
\<close>

theorem entries_never_modified:
  assumes "api_visit URL now h b = (h', r)"
  shows "pages (fst (api_back h)) = pages h
       \<and> pages (fst (api_forward h)) = pages h
       \<and> (\<not> succeeded r \<longrightarrow> h' = h)
       \<and> (succeeded r \<longrightarrow>
            length (pages h') - 1 \<le> length (pages h)
          \<and> pages h' = take (length (pages h') - 1) (pages h)
                         @ [newPage URL now (trim (stringOf b))]
          \<and> (\<forall>i < length (pages h') - 1. pages h' ! i = pages h ! i))"
proof -
  have bk: "pages (fst (api_back h)) = pages h"
    by (simp add: api_back_def Let_def split: option.splits)
  have fw: "pages (fst (api_forward h)) = pages h"
    by (simp add: api_forward_def Let_def split: option.splits)
  have rj: "h' = h" if "\<not> succeeded r"
  proof -
    from that obtain c e where "r = Failure c e"
      by (cases r) (simp_all add: succeeded_def)
    with assms show ?thesis by (simp add: visit_failure_state)
  qed
  have ac: "length (pages h') - 1 \<le> length (pages h)
          \<and> pages h' = take (length (pages h') - 1) (pages h)
                         @ [newPage URL now (trim (stringOf b))]
          \<and> (\<forall>i < length (pages h') - 1. pages h' ! i = pages h ! i)" if "succeeded r"
  proof -
    from that obtain d m where "r = Success d m"
      by (cases r) (simp_all add: succeeded_def)
    with assms have s: "api_visit URL now h b = (h', Success d m)" by simp
    have "\<exists>n\<le>length (pages h).
      (if currentIndex h < int (length (pages h)) - 1
       then slice0 (pages h) (currentIndex h + 1) else pages h) = take n (pages h)"
    proof (cases "currentIndex h < int (length (pages h)) - 1")
      case True
      then show ?thesis using slice0_take [of "pages h" "currentIndex h + 1"] by simp
    next
      case False
      then show ?thesis by (intro exI [of _ "length (pages h)"]) simp
    qed
    then obtain n where n: "n \<le> length (pages h)"
      "(if currentIndex h < int (length (pages h)) - 1
        then slice0 (pages h) (currentIndex h + 1) else pages h) = take n (pages h)"
      by blast
    have p: "pages h' = take n (pages h) @ [newPage URL now (trim (stringOf b))]"
      using visit_success_state(1) [OF s] n(2) by simp
    have l: "length (pages h') - 1 = n"
      using p n(1) by simp
    have "\<forall>i<n. pages h' ! i = pages h ! i"
      using p n(1) by (simp add: nth_append)
    with p n(1) l show ?thesis by simp
  qed
  show ?thesis using bk fw rj ac by blast
qed

theorem entries_never_modified_witness:
  "api_visit hostOnly ''t3'' two_pages_at_last (JString ''http://c.com/x'') =
     (\<lparr>pages = [entry ''a.com'' ''t1'', entry ''b.com'' ''t2'',
                \<lparr>url = ''http://c.com/x'', timestamp = ''t3'', title = ''c.com''\<rparr>],
       currentIndex = 2\<rparr>,
      Success \<lparr>page = ''http://c.com/x'', canGoBack = True, canGoForward = False,
               currentIndex_out = 2, totalPages = 3\<rparr>
              ''Successfully visited: http://c.com/x'')
   \<and> succeeded (Success \<lparr>page = ''http://c.com/x'', canGoBack = True, canGoForward = False,
               currentIndex_out = 2, totalPages = 3\<rparr>
              ''Successfully visited: http://c.com/x'')
   \<and> [entry ''a.com'' ''t1'', entry ''b.com'' ''t2'',
       \<lparr>url = ''http://c.com/x'', timestamp = ''t3'', title = ''c.com''\<rparr>] ! 1
       = pages two_pages_at_last ! 1
   \<and> pages (fst (api_back two_pages_at_last)) = pages two_pages_at_last"
proof -
  have v: "api_visit hostOnly ''t3'' two_pages_at_last (JString ''http://c.com/x'') =
     (\<lparr>pages = [entry ''a.com'' ''t1'', entry ''b.com'' ''t2'',
                \<lparr>url = ''http://c.com/x'', timestamp = ''t3'', title = ''c.com''\<rparr>],
       currentIndex = 2\<rparr>,
      Success \<lparr>page = ''http://c.com/x'', canGoBack = True, canGoForward = False,
               currentIndex_out = 2, totalPages = 3\<rparr>
              ''Successfully visited: http://c.com/x'')"
    by (simp add: eval_defs two_pages_at_last_def)
  have s: "succeeded (Success \<lparr>page = ''http://c.com/x'', canGoBack = True,
               canGoForward = False, currentIndex_out = 2, totalPages = 3\<rparr>
              ''Successfully visited: http://c.com/x'')"
    by (simp add: succeeded_def)
  note t = entries_never_modified [OF v]
  have k: "[entry ''a.com'' ''t1'', entry ''b.com'' ''t2'',
       \<lparr>url = ''http://c.com/x'', timestamp = ''t3'', title = ''c.com''\<rparr>] ! 1
       = pages two_pages_at_last ! 1"
    using t [THEN conjunct2, THEN conjunct2, THEN conjunct2, THEN mp, OF s,
             THEN conjunct2, THEN conjunct2, THEN spec, of 1]
    by simp
  have b: "pages (fst (api_back two_pages_at_last)) = pages two_pages_at_last"
    by (rule t [THEN conjunct1])
  show ?thesis
    by (intro conjI) (rule v s k b)+
qed

subsection \<open>The projection outside the invariant\<close>

text \<open>
  C10. GET /api/current reads \<open>pages[currentIndex]\<close> only when the index is in range. For
  every state whose index is outside \<open>[0, pages.length)\<close>, also one above the range, it
  answers with the empty address, and the flags, the index and the count are computed
  as usual: \<open>canGoBack\<close> is \<open>currentIndex > 0\<close>, \<open>canGoForward\<close> is
  \<open>currentIndex < pages.length - 1\<close>.
\<close>

theorem current_outside_range:
  assumes "\<not> (0 \<le> currentIndex h \<and> currentIndex h < int (length (pages h)))"
  shows "api_current h =
           \<lparr>page = [], canGoBack = (currentIndex h > 0),
            canGoForward = (currentIndex h < int (length (pages h)) - 1),
            currentIndex_out = currentIndex h, totalPages = length (pages h)\<rparr>"
  using assms by (auto simp: api_current_def)

theorem current_outside_range_witness:
  "\<not> (0 \<le> currentIndex one_page_index_five
       \<and> currentIndex one_page_index_five < int (length (pages one_page_index_five)))
   \<and> api_current one_page_index_five =
       \<lparr>page = [], canGoBack = True, canGoForward = False,
        currentIndex_out = 5, totalPages = 1\<rparr>"
proof -
  have o: "\<not> (0 \<le> currentIndex one_page_index_five
       \<and> currentIndex one_page_index_five < int (length (pages one_page_index_five)))"
    by (simp add: one_page_index_five_def)
  show ?thesis
    using o current_outside_range [OF o] by (simp add: one_page_index_five_def)
qed

end
